theory Spec2Isabelle
  imports Main
begin

section \<open>JavaScript strings\<close>

text \<open>
  A string is the list of its UTF-16 code units. The model has the code units below 256,
  the Basic Latin and Latin-1 Supplement blocks, and on them \<open>trim\<close> and \<open>toLowerCase\<close>
  are the standard's in full. Of ECMAScript's WhiteSpace and LineTerminator classes these
  are TAB, LF, VT, FF, CR, SPACE and NO-BREAK SPACE (160). The letters with a lower-case
  mapping are \<open>A\<close>..\<open>Z\<close> and 192..214, 216..222 (\<open>\<times>\<close>, 215, is no letter); each maps
  to the code unit 32 above it, whatever its neighbours, so that a string of these code
  units is lower-cased unit by unit. Code units from 256 on, whose mappings are in the
  Unicode tables of the platform and can depend on the neighbours, are not in the model.
\<close>

definition isWhiteSpace :: "char \<Rightarrow> bool" where
  "isWhiteSpace c = (of_char c \<in> {9, 10, 11, 12, 13, 32, 160 :: nat})"

definition trim :: "string \<Rightarrow> string" where
  "trim s = rev (dropWhile isWhiteSpace (rev (dropWhile isWhiteSpace s)))"


definition lowerChar :: "char \<Rightarrow> char" where
  "lowerChar c =
     (let n = (of_char c :: nat)
      in if (65 \<le> n \<and> n \<le> 90) \<or> (192 \<le> n \<and> n \<le> 214) \<or> (216 \<le> n \<and> n \<le> 222)
         then char_of (n + 32) else c)"

definition toLowerCase :: "string \<Rightarrow> string" where
  "toLowerCase s = map lowerChar s"

definition endsWith :: "'u list \<Rightarrow> 'u list \<Rightarrow> bool" where
  "endsWith s suf =
     (length suf \<le> length s \<and> drop (length s - length suf) s = suf)"

section \<open>The search term of \<open>performSearch\<close>\<close>

text \<open>
  \<^verbatim>\<open>let searchName = name.trim().toLowerCase();
  if (!searchName.endsWith('.eth')) { searchName = searchName + '.eth'; }\<close>
\<close>

definition searchName :: "string \<Rightarrow> string" where
  "searchName name =
     (let s = toLowerCase (trim name)
      in if \<not> endsWith s ''.eth'' then s @ ''.eth'' else s)"

text \<open>
  The same two statements over code units of any type, the platform's \<open>toLowerCase\<close> and
  \<open>trim\<close> being the parameters \<open>lc\<close> and \<open>tr\<close> and \<open>eth\<close> the suffix: this is the code
  on full UTF-16 strings, where the case mapping comes from the Unicode tables.
\<close>

definition searchName_with ::
    "('u list \<Rightarrow> 'u list) \<Rightarrow> ('u list \<Rightarrow> 'u list) \<Rightarrow> 'u list \<Rightarrow> 'u list \<Rightarrow> 'u list" where
  "searchName_with lc tr eth name =
     (let s = lc (tr name)
      in if \<not> endsWith s eth then s @ eth else s)"

section \<open>The search history\<close>

definition MAX_SEARCH_HISTORY :: nat where
  "MAX_SEARCH_HISTORY = 10"

text \<open>
  \<open>saveToHistory\<close> on a history that is an array of strings: the state updater
  \<^verbatim>\<open>prev.filter((item) => item.toLowerCase() !== normalizedName)\<close>, the new entry in
  front, \<^verbatim>\<open>slice(0, MAX_SEARCH_HISTORY)\<close>. A name that is blank after trimming returns
  before the updater is installed.
\<close>

definition saveToHistory :: "string \<Rightarrow> string list \<Rightarrow> string list" where
  "saveToHistory name prev =
     (let normalizedName = toLowerCase (trim name)
      in if normalizedName = [] then prev
         else let filtered = filter (\<lambda>item. toLowerCase item \<noteq> normalizedName) prev
              in take MAX_SEARCH_HISTORY (normalizedName # filtered))"

text \<open>A sequence of \<open>saveToHistory\<close> calls, the first name of the list recorded first.\<close>

definition recordAll :: "string list \<Rightarrow> string list \<Rightarrow> string list" where
  "recordAll names h = fold saveToHistory names h"

section \<open>Values at run time\<close>

text \<open>
  The TypeScript annotations are erased at run time: what \<open>JSON.parse\<close> and
  \<open>response.json()\<close> return, and so what the state setters store, is any JSON value.
  Numbers are modelled by their integer values. An object is the list of its members;
  \<open>JSON.parse\<close> keeps the last of several members of one name, so the lists here have
  each name once.
\<close>

datatype json =
    JNull
  | JBool bool
  | JNum int
  | JStr string
  | JArr "json list"
  | JObj "(string \<times> json) list"

text \<open>What \<open>if (v)\<close> and \<open>v || d\<close> test.\<close>

fun truthy :: "json \<Rightarrow> bool" where
  "truthy JNull = False"
| "truthy (JBool b) = b"
| "truthy (JNum n) = (n \<noteq> 0)"
| "truthy (JStr s) = (s \<noteq> [])"
| "truthy (JArr _) = True"
| "truthy (JObj _) = True"

text \<open>A thrown \<open>Error\<close> object with its \<open>message\<close>; the empty string stands for a
  message that is missing or empty, which \<open>||\<close> treats alike.\<close>

datatype js_error = JsError (message: string)

text \<open>\<open>v || d\<close> where \<open>v\<close> may be \<open>undefined\<close> (\<open>None\<close>).\<close>

definition orElse :: "json option \<Rightarrow> json \<Rightarrow> json" where
  "orElse v d = (case v of None \<Rightarrow> d | Some x \<Rightarrow> if truthy x then x else d)"

text \<open>
  \<open>errorData.error\<close>: reading a property of \<open>null\<close> throws a TypeError (its text is the
  engine's; V8's is used), an object gives the member or \<open>undefined\<close>, and every other
  JSON value has no such property.
\<close>

definition errorField :: "json \<Rightarrow> js_error + json option" where
  "errorField errorData =
     (case errorData of
        JNull \<Rightarrow> Inl (JsError ''Cannot read properties of null (reading 'error')'')
      | JObj members \<Rightarrow> Inr (map_of members ''error'')
      | _ \<Rightarrow> Inr None)"

fun asString :: "json \<Rightarrow> string option" where
  "asString (JStr s) = Some s"
| "asString _ = None"

text \<open>The value as an array of strings, if it is one.\<close>

fun stringArray :: "json \<Rightarrow> string list option" where
  "stringArray (JArr items) = those (map asString items)"
| "stringArray _ = None"

section \<open>The component \<open>Home\<close>\<close>

text \<open>
  The calls that leave the component, in the order they are made:
  \<open>router.push(path)\<close>, \<open>fetch\<close> of \<open>/api/ens?name=\<close> followed by the URI-encoded
  name, \<open>localStorage.setItem\<close> of the stringified history, \<open>console.error\<close>.
\<close>

datatype effect =
    RouterPush string
  | Fetch string
  | StorageSet json
  | ConsoleError string

record home =
  ensName :: string
  isSearching :: bool
  error :: json
  searchResults :: json
  searchHistory :: json
  showHistory :: bool
  effects :: "effect list"

text \<open>The state after the first render: the arguments of the \<open>useState\<close> calls.\<close>

definition home0 :: home where
  "home0 = \<lparr> ensName = [], isSearching = False, error = JNull, searchResults = JNull,
             searchHistory = JArr [], showHistory = False, effects = [] \<rparr>"

text \<open>
  A value as a child of an element, as in \<open><p>{error}</p>\<close>: React renders a string or
  a number as text, nothing for \<open>null\<close> and the booleans, an array item by item, and
  throws on an object, which unmounts the component.
\<close>

fun renderable :: "json \<Rightarrow> bool" where
  "renderable (JObj members) = False"
| "renderable (JArr items) = list_all renderable items"
| "renderable v = True"

definition childError :: js_error where
  "childError = JsError ''Objects are not valid as a React child''"

text \<open>\<open>searchResults.name\<close>, the child of the heading of the results; \<open>None\<close> is \<open>undefined\<close>.\<close>

definition nameField :: "json \<Rightarrow> json option" where
  "nameField v = (case v of JObj members \<Rightarrow> map_of members ''name'' | _ \<Rightarrow> None)"

text \<open>
  The results area of the render: \<open>error ? \<dots> : isSearching ? \<dots> : searchResults ? \<dots> : \<dots>\<close>,
  with the throw of a child that React refuses. The component \<open>ENSHistory\<close> that the
  results branch mounts is not part of the source; what it renders is not modelled.
\<close>

datatype searchState = Idle | Loading | Error json | Success json

definition view :: "home \<Rightarrow> js_error + searchState" where
  "view st =
     (if truthy (error st) then
        (if renderable (error st) then Inr (Error (error st)) else Inl childError)
      else if isSearching st then Inr Loading
      else if truthy (searchResults st) then
        (case nameField (searchResults st) of
           None \<Rightarrow> Inr (Success (searchResults st))
         | Some child \<Rightarrow>
             if renderable child then Inr (Success (searchResults st)) else Inl childError)
      else Inr Idle)"

text \<open>
  The history effect run on mount. \<open>parse\<close> is the platform's \<open>JSON.parse\<close>, \<open>Inl\<close> its
  SyntaxError; \<open>stored\<close> is what \<open>localStorage.getItem\<close> returned, \<open>None\<close> for \<open>null\<close>.
\<close>

definition loadHistory :: "(string \<Rightarrow> js_error + json) \<Rightarrow> string option \<Rightarrow> home \<Rightarrow> home" where
  "loadHistory parse stored st =
     (case stored of
        None \<Rightarrow> st
      | Some s \<Rightarrow>
          if s = [] then st
          else (case parse s of
                  Inr v \<Rightarrow> st\<lparr>searchHistory := v\<rparr>
                | Inl e \<Rightarrow>
                    st\<lparr>effects := effects st @ [ConsoleError ''Failed to parse search history:'']\<rparr>))"

text \<open>
  \<open>saveToHistory\<close> on the component: the updater reads the current history. On a value that
  is not an array of strings \<open>prev.filter\<close> or \<open>item.toLowerCase\<close> is not a function and
  the updater throws while React renders, outside any \<open>try\<close>.
\<close>

definition saveToHistory_state :: "string \<Rightarrow> home \<Rightarrow> js_error + home" where
  "saveToHistory_state name st =
     (if toLowerCase (trim name) = [] then Inr st
      else (case stringArray (searchHistory st) of
              None \<Rightarrow> Inl (JsError ''TypeError'')
            | Some prev \<Rightarrow>
                let updated = JArr (map JStr (saveToHistory name prev))
                in Inr (st\<lparr>searchHistory := updated,
                           effects := effects st @ [StorageSet updated]\<rparr>)))"

text \<open>The argument of \<open>router.push\<close> in \<open>updateURL\<close>.\<close>

definition updateURL_path :: "string \<Rightarrow> string" where
  "updateURL_path name =
     (let normalizedName = toLowerCase (trim name)
      in if normalizedName \<noteq> [] then ''/'' @ normalizedName else ''/'')"

definition updateURL :: "string \<Rightarrow> home \<Rightarrow> home" where
  "updateURL name st = st\<lparr>effects := effects st @ [RouterPush (updateURL_path name)]\<rparr>"

definition RATE_LIMIT_MESSAGE :: string where
  "RATE_LIMIT_MESSAGE = ''Rate limit exceeded. The Graph API is temporarily rate-limiting requests. Please wait a few moments and try again.''"

definition DEFAULT_MESSAGE :: string where
  "DEFAULT_MESSAGE = ''Failed to fetch ENS history. Please try again.''"

text \<open>
  What \<open>fetch\<close> settles with: a rejection (\<open>Inl\<close>), or a response with its status and
  with what \<open>response.json()\<close> settles with, a SyntaxError on a body that does not parse.
  \<open>response.ok\<close> is the Fetch standard's: a status from 200 to 299.
\<close>

record response =
  status :: nat
  body :: "js_error + json"

definition ok :: "response \<Rightarrow> bool" where
  "ok r = (200 \<le> status r \<and> status r \<le> 299)"

type_synonym outcome = "js_error + response"

text \<open>
  \<open>performSearch\<close> is an async function; it runs in two uninterrupted parts. The first,
  up to \<open>await fetch(\<dots>)\<close>, is \<open>performSearch_begin\<close>. The second runs when the lookup has
  settled (no setter is called between the two awaits of a path), and is
  \<open>performSearch_settle\<close>: it closes over \<open>searchName\<close> and nothing else, and its setters
  act on whatever the state is by then.
\<close>

definition performSearch_begin :: "string \<Rightarrow> home \<Rightarrow> home" where
  "performSearch_begin name st =
     (let st1 = st\<lparr>isSearching := True, searchResults := JNull, error := JNull,
                    showHistory := False\<rparr>;
          st2 = updateURL (searchName name) st1
      in st2\<lparr>effects := effects st2 @ [Fetch (searchName name)]\<rparr>)"

text \<open>The \<open>try\<close> block after the lookup has settled: what it sets, or what it throws.\<close>

datatype tried = Thrown js_error | SetError json | SetSearchResults json

definition try_block :: "outcome \<Rightarrow> tried" where
  "try_block oc =
     (case oc of
        Inl e \<Rightarrow> Thrown e
      | Inr r \<Rightarrow>
          if \<not> ok r then
            (case body r of
               Inl e \<Rightarrow> Thrown e
             | Inr errorData \<Rightarrow>
                 (case errorField errorData of
                    Inl e \<Rightarrow> Thrown e
                  | Inr v \<Rightarrow>
                      if status r = 429 then SetError (orElse v (JStr RATE_LIMIT_MESSAGE))
                      else SetError (orElse v (JStr DEFAULT_MESSAGE))))
          else
            (case body r of
               Inl e \<Rightarrow> Thrown e
             | Inr data \<Rightarrow> SetSearchResults data))"

text \<open>\<open>error.message || "Failed to fetch ENS history. Please try again."\<close>\<close>

definition caughtMessage :: "js_error \<Rightarrow> json" where
  "caughtMessage e = JStr (if message e \<noteq> [] then message e else DEFAULT_MESSAGE)"

definition performSearch_settle :: "string \<Rightarrow> outcome \<Rightarrow> home \<Rightarrow> js_error + home" where
  "performSearch_settle name oc st =
     (case try_block oc of
        SetError m \<Rightarrow> Inr (st\<lparr>error := m, isSearching := False\<rparr>)
      | SetSearchResults data \<Rightarrow>
          (case saveToHistory_state (searchName name) (st\<lparr>searchResults := data\<rparr>) of
             Inl e \<Rightarrow> Inl e
           | Inr st' \<Rightarrow> Inr (st'\<lparr>isSearching := False\<rparr>))
      | Thrown e \<Rightarrow>
          Inr (st\<lparr>effects := effects st @ [ConsoleError ''Error fetching ENS history:''],
                  error := caughtMessage e, isSearching := False\<rparr>))"

text \<open>
  Runs of the component: a search begins, or the lookup of an earlier search for that name
  settles. A throw while rendering ends the run.
\<close>

datatype event = Begin string | Settle string outcome

fun step :: "event \<Rightarrow> home \<Rightarrow> js_error + home" where
  "step (Begin name) st = Inr (performSearch_begin name st)"
| "step (Settle name oc) st = performSearch_settle name oc st"

fun run :: "event list \<Rightarrow> home \<Rightarrow> js_error + home" where
  "run [] st = Inr st"
| "run (ev # evs) st = (case step ev st of Inl e \<Rightarrow> Inl e | Inr st' \<Rightarrow> run evs st')"

text \<open>Searches one after the other: each lookup settles before the next search begins.\<close>

fun sequential :: "(string \<times> outcome) list \<Rightarrow> event list" where
  "sequential [] = []"
| "sequential ((name, oc) # rest) = Begin name # Settle name oc # sequential rest"

text \<open>The state holds what the completion of this outcome sets.\<close>

definition reflects :: "outcome \<Rightarrow> home \<Rightarrow> bool" where
  "reflects oc st =
     (case try_block oc of
        SetError m \<Rightarrow> error st = m
      | SetSearchResults data \<Rightarrow> searchResults st = data
      | Thrown e \<Rightarrow> error st = caughtMessage e)"

text \<open>How many of loading flag, error and result are set; \<open>Idle\<close> is none of them.\<close>

definition active :: "home \<Rightarrow> nat" where
  "active st =
     (if isSearching st then 1 else 0) + (if error st \<noteq> JNull then 1 else 0)
     + (if searchResults st \<noteq> JNull then 1 else 0)"

section \<open>Routes\<close>

text \<open>
  The app directory has two pages: \<open>app/page.tsx\<close> serves the path \<open>/\<close> and renders
  \<open>Home\<close> without props; \<open>app/[domain]/page.tsx\<close> serves a path of one segment and
  renders \<open>Home\<close> with \<open>initialDomain\<close> the decoded segment. A \<open>route\<close> is what \<open>Home\<close>
  reads of it: \<open>usePathname()\<close> and the prop.

  \<open>decodeURIComponent\<close> returns a string without \<open>%\<close> as it is; what it does with
  escapes is the platform's and is the parameter \<open>escapes\<close> (\<open>None\<close> when it throws a
  URIError). The router is modelled for paths that the browser leaves as they are pushed;
  a segment of RFC 3986 unreserved characters is one.
\<close>

definition unreserved :: "char \<Rightarrow> bool" where
  "unreserved c =
     (let n = (of_char c :: nat)
      in (48 \<le> n \<and> n \<le> 57) \<or> (65 \<le> n \<and> n \<le> 90) \<or> (97 \<le> n \<and> n \<le> 122)
         \<or> n = 45 \<or> n = 46 \<or> n = 95 \<or> n = 126)"

definition decodeURIComponent :: "(string \<Rightarrow> string option) \<Rightarrow> string \<Rightarrow> string option" where
  "decodeURIComponent escapes s = (if CHR ''%'' \<notin> set s then Some s else escapes s)"

text \<open>A decoder of escapes for use where none occurs.\<close>

definition noEscapes :: "string \<Rightarrow> string option" where
  "noEscapes s = None"

record route =
  pathname :: string
  initialDomain :: "string option"

text \<open>The prop that \<open>DomainPage\<close> passes to \<open>Home\<close>.\<close>

definition DomainPage :: "(string \<Rightarrow> string option) \<Rightarrow> string \<Rightarrow> string option" where
  "DomainPage escapes domain = decodeURIComponent escapes domain"

definition page_for :: "(string \<Rightarrow> string option) \<Rightarrow> string \<Rightarrow> route option" where
  "page_for escapes path =
     (if path = ''/'' then Some \<lparr>pathname = path, initialDomain = None\<rparr>
      else if take 1 path = ''/'' \<and> CHR ''/'' \<notin> set (drop 1 path) then
        (case DomainPage escapes (drop 1 path) of
           None \<Rightarrow> None
         | Some decodedDomain \<Rightarrow> Some \<lparr>pathname = path, initialDomain = Some decodedDomain\<rparr>)
      else None)"

text \<open>
  The route effect of \<open>Home\<close>: the argument of its \<open>performSearch\<close> call, if it makes one.
  An empty \<open>initialDomain\<close> is falsy, as a missing one.
\<close>

definition routeEffect :: "route \<Rightarrow> string option" where
  "routeEffect r =
     (if initialDomain r \<noteq> None \<and> initialDomain r \<noteq> Some [] then initialDomain r
      else if pathname r \<noteq> [] \<and> pathname r \<noteq> ''/'' then
        (let domainFromPath = drop 1 (pathname r)
         in if domainFromPath \<noteq> [] then Some domainFromPath else None)
      else None)"

text \<open>The dependency array \<open>[pathname, initialDomain]\<close>: the effect runs again when one differs.\<close>

definition depsChanged :: "route \<Rightarrow> route \<Rightarrow> bool" where
  "depsChanged r r' = (pathname r \<noteq> pathname r' \<or> initialDomain r \<noteq> initialDomain r')"

text \<open>
  A page load: the effect runs on mount; its search pushes a path; the page of that path
  is rendered, and the effect runs again if a dependency changed. The result is the
  arguments of the \<open>performSearch\<close> calls in order; the first argument bounds the number
  of runs of the effect.
\<close>

fun pageLoad :: "nat \<Rightarrow> (string \<Rightarrow> string option) \<Rightarrow> route \<Rightarrow> string list" where
  "pageLoad 0 escapes r = []"
| "pageLoad (Suc n) escapes r =
     (case routeEffect r of
        None \<Rightarrow> []
      | Some term \<Rightarrow>
          term # (case page_for escapes (updateURL_path (searchName term)) of
                    None \<Rightarrow> []
                  | Some r' \<Rightarrow> if depsChanged r r' then pageLoad n escapes r' else []))"

section \<open>Properties of the string operations\<close>

lemma isWhiteSpace_lowerChar: "isWhiteSpace (lowerChar c) = isWhiteSpace c"
  by (auto simp: isWhiteSpace_def lowerChar_def Let_def)

lemma lowerChar_idem: "lowerChar (lowerChar c) = lowerChar c"
  by (auto simp: lowerChar_def Let_def)

lemma toLowerCase_idem: "toLowerCase (toLowerCase s) = toLowerCase s"
  by (simp add: toLowerCase_def lowerChar_idem)

lemma toLowerCase_append: "toLowerCase (s @ t) = toLowerCase s @ toLowerCase t"
  by (simp add: toLowerCase_def)

lemma toLowerCase_eth: "toLowerCase ''.eth'' = ''.eth''"
  by (simp add: toLowerCase_def lowerChar_def)

lemma dropWhile_ws_lower:
  "dropWhile isWhiteSpace (toLowerCase s) = toLowerCase (dropWhile isWhiteSpace s)"
  by (induction s) (auto simp: toLowerCase_def isWhiteSpace_lowerChar)

lemma trim_toLowerCase: "trim (toLowerCase s) = toLowerCase (trim s)"
proof -
  have "rev (toLowerCase s) = toLowerCase (rev s)" for s
    by (simp add: toLowerCase_def rev_map)
  then show ?thesis
    by (simp add: trim_def dropWhile_ws_lower)
qed

lemma trim_fixed_iff:
  "trim s = s \<longleftrightarrow> s = [] \<or> (\<not> isWhiteSpace (hd s) \<and> \<not> isWhiteSpace (last s))"
proof (cases "s = []")
  case True
  then show ?thesis by (simp add: trim_def)
next
  case False
  show ?thesis
  proof (cases "isWhiteSpace (hd s)")
    case True
    have "length (trim s) \<le> length (dropWhile isWhiteSpace s)"
      using length_dropWhile_le [of isWhiteSpace "rev (dropWhile isWhiteSpace s)"]
      by (simp add: trim_def)
    moreover have "length (dropWhile isWhiteSpace s) < length s"
      using False True by (cases s) (auto intro: le_imp_less_Suc length_dropWhile_le)
    ultimately have "trim s \<noteq> s" by auto
    with True False show ?thesis by simp
  next
    case notws: False
    then have d: "dropWhile isWhiteSpace s = s"
      by (simp add: dropWhile_eq_self_iff)
    have "trim s = s \<longleftrightarrow> dropWhile isWhiteSpace (rev s) = rev s"
      by (simp add: trim_def d rev_swap)
    also have "\<dots> \<longleftrightarrow> \<not> isWhiteSpace (last s)"
      using False by (simp add: dropWhile_eq_self_iff hd_rev)
    finally show ?thesis using False notws by simp
  qed
qed

lemma trim_idem: "trim (trim s) = trim s"
proof -
  let ?d = "dropWhile isWhiteSpace (rev (dropWhile isWhiteSpace s))"
  have tr: "trim s = rev ?d" by (simp add: trim_def)
  show ?thesis
  proof (cases "?d = []")
    case True
    then have "trim s = []" by (simp add: tr)
    then show ?thesis by (simp add: trim_fixed_iff)
  next
    case False
    then have h: "\<not> isWhiteSpace (hd ?d)"
      using hd_dropWhile by blast
    have l: "last ?d = last (rev (dropWhile isWhiteSpace s))"
      using False by (metis append_Nil2 last_appendR takeWhile_dropWhile_id)
    have ne: "dropWhile isWhiteSpace s \<noteq> []"
    proof
      assume "dropWhile isWhiteSpace s = []"
      then have "?d = []" by (simp only: rev.simps dropWhile.simps)
      with False show False by contradiction
    qed
    then have "\<not> isWhiteSpace (hd (dropWhile isWhiteSpace s))"
      using hd_dropWhile by blast
    with l ne have "\<not> isWhiteSpace (last ?d)"
      by (simp add: last_rev)
    with h False show ?thesis
      by (simp add: trim_fixed_iff tr hd_rev last_rev)
  qed
qed

lemma trim_append_eth:
  assumes "trim s = s"
  shows "trim (s @ ''.eth'') = s @ ''.eth''"
proof -
  have "\<not> isWhiteSpace (hd (s @ ''.eth''))"
    using assms by (cases s) (auto simp: trim_fixed_iff isWhiteSpace_def)
  moreover have "\<not> isWhiteSpace (last (s @ ''.eth''))"
    by (simp add: isWhiteSpace_def)
  ultimately show ?thesis by (simp add: trim_fixed_iff)
qed

lemma endsWith_append: "endsWith (s @ suf) suf"
  by (simp add: endsWith_def)

lemma searchName_endsWith: "endsWith (searchName x) ''.eth''"
  by (simp add: searchName_def Let_def endsWith_append)

lemma searchName_lower: "toLowerCase (searchName x) = searchName x"
  by (simp add: searchName_def Let_def toLowerCase_append toLowerCase_idem toLowerCase_eth)

lemma searchName_trim: "trim (searchName x) = searchName x"
proof -
  have t: "trim (toLowerCase (trim x)) = toLowerCase (trim x)"
    by (simp add: trim_toLowerCase trim_idem)
  show ?thesis
    using t trim_append_eth [OF t] by (simp add: searchName_def Let_def)
qed

lemma searchName_not_Nil: "searchName x \<noteq> []"
  using searchName_endsWith [of x] by (auto simp: endsWith_def)

lemma searchName_fixed: "searchName (searchName x) = searchName x"
proof -
  have "toLowerCase (trim (searchName x)) = searchName x"
    by (simp add: searchName_trim searchName_lower)
  then show ?thesis
    using searchName_endsWith [of x] by (subst searchName_def) (simp add: Let_def)
qed

text \<open>
  Beyond the code units of the model: with any lower-casing that is idempotent, keeps a
  trimmed string trimmed and leaves the suffix as it is after a lower-cased string, and
  any trimming that leaves the suffix after a trimmed string, the normalization is
  idempotent and its result is a fixed point of both and ends in the suffix. The functions
  of the model are such, and \<open>searchName\<close> is the instance.
\<close>

lemma searchName_with_idempotent:
  assumes lc_idem: "\<And>s. lc (lc s) = lc s"
    and tr_lc: "\<And>s. tr (lc (tr s)) = lc (tr s)"
    and tr_eth: "\<And>s. tr s = s \<Longrightarrow> tr (s @ eth) = s @ eth"
    and lc_eth: "\<And>s. lc s = s \<Longrightarrow> lc (s @ eth) = s @ eth"
  shows "searchName_with lc tr eth (searchName_with lc tr eth x) = searchName_with lc tr eth x
         \<and> lc (searchName_with lc tr eth x) = searchName_with lc tr eth x
         \<and> tr (searchName_with lc tr eth x) = searchName_with lc tr eth x
         \<and> endsWith (searchName_with lc tr eth x) eth"
proof -
  let ?n = "searchName_with lc tr eth x"
  have e: "endsWith ?n eth"
    by (simp add: searchName_with_def Let_def endsWith_append)
  have l: "lc ?n = ?n"
    by (simp add: searchName_with_def Let_def lc_idem lc_eth)
  have t: "tr ?n = ?n"
    by (simp add: searchName_with_def Let_def tr_lc tr_eth)
  have "searchName_with lc tr eth ?n = ?n"
    using e by (subst searchName_with_def) (simp add: Let_def t l)
  with e l t show ?thesis by simp
qed

lemma searchName_instance: "searchName = searchName_with toLowerCase trim ''.eth''"
  by (rule ext) (simp add: searchName_def searchName_with_def)

lemma model_functions_normalizing:
  "toLowerCase (toLowerCase s) = toLowerCase s
   \<and> trim (toLowerCase (trim s)) = toLowerCase (trim s)
   \<and> (trim s = s \<longrightarrow> trim (s @ ''.eth'') = s @ ''.eth'')
   \<and> (toLowerCase s = s \<longrightarrow> toLowerCase (s @ ''.eth'') = s @ ''.eth'')"
  by (simp add: toLowerCase_idem trim_toLowerCase trim_idem trim_append_eth
      toLowerCase_append toLowerCase_eth)






section \<open>Properties of the history\<close>

lemma saveToHistory_blank:
  "toLowerCase (trim name) = [] \<Longrightarrow> saveToHistory name h = h"
  by (simp add: saveToHistory_def)

lemma saveToHistory_front:
  assumes "toLowerCase (trim name) \<noteq> []"
  shows "saveToHistory name h =
         toLowerCase (trim name)
           # take 9 (filter (\<lambda>item. toLowerCase item \<noteq> toLowerCase (trim name)) h)"
  using assms by (simp add: saveToHistory_def MAX_SEARCH_HISTORY_def Let_def)

lemma length_saveToHistory:
  "length h \<le> 10 \<Longrightarrow> length (saveToHistory name h) \<le> 10"
  by (simp add: saveToHistory_def MAX_SEARCH_HISTORY_def Let_def)

lemma distinct_lower_filter:
  "distinct (map toLowerCase h) \<Longrightarrow> distinct (map toLowerCase (take k (filter P h)))"
proof -
  assume "distinct (map toLowerCase h)"
  then have "distinct (map toLowerCase (filter P h))"
    by (rule distinct_map_filter)
  then have "distinct (take k (map toLowerCase (filter P h)))"
    by (rule distinct_take)
  then show ?thesis by (simp add: take_map)
qed

lemma lower_notin_filtered:
  "n \<notin> set (map toLowerCase (take k (filter (\<lambda>item. toLowerCase item \<noteq> n) h)))"
proof
  assume "n \<in> set (map toLowerCase (take k (filter (\<lambda>item. toLowerCase item \<noteq> n) h)))"
  then obtain item where
    "item \<in> set (take k (filter (\<lambda>item. toLowerCase item \<noteq> n) h))" "toLowerCase item = n"
    by auto
  then have "item \<in> set (filter (\<lambda>item. toLowerCase item \<noteq> n) h)" "toLowerCase item = n"
    by (auto dest: in_set_takeD)
  then show False by simp
qed

lemma distinct_saveToHistory:
  assumes "distinct (map toLowerCase h)"
  shows "distinct (map toLowerCase (saveToHistory name h))"
proof (cases "toLowerCase (trim name) = []")
  case True
  with assms show ?thesis by (simp add: saveToHistory_blank)
next
  case False
  let ?n = "toLowerCase (trim name)"
  have "distinct (map toLowerCase (take 9 (filter (\<lambda>item. toLowerCase item \<noteq> ?n) h)))"
    using assms by (rule distinct_lower_filter)
  moreover have "?n \<notin> set (map toLowerCase (take 9 (filter (\<lambda>item. toLowerCase item \<noteq> ?n) h)))"
    by (rule lower_notin_filtered)
  ultimately show ?thesis
    by (simp add: saveToHistory_front [OF False] toLowerCase_idem del: set_map)
qed

lemma recordAll_snoc: "recordAll (names @ [name]) h = saveToHistory name (recordAll names h)"
  by (simp add: recordAll_def)

lemma recordAll_invariant:
  "length h \<le> 10 \<Longrightarrow> distinct (map toLowerCase h) \<Longrightarrow>
   length (recordAll names h) \<le> 10 \<and> distinct (map toLowerCase (recordAll names h))"
proof (induction names rule: rev_induct)
  case Nil
  then show ?case by (simp add: recordAll_def)
next
  case (snoc name names)
  then show ?case
    by (simp add: recordAll_snoc length_saveToHistory distinct_saveToHistory)
qed

text \<open>
  C6: starting from the empty history, after any sequence of \<open>saveToHistory\<close> calls the list
  has at most 10 entries and no two entries that are equal ignoring case; and the next call
  puts its term (trimmed and lower-cased, which is what the function records; a blank name
  records nothing) at the front, followed by the earlier entries in their order without any
  that equals the term ignoring case.
\<close>

theorem saveToHistory_bounded_distinct_front:
  "length (recordAll names []) \<le> 10
   \<and> distinct (map toLowerCase (recordAll names []))
   \<and> (toLowerCase (trim name) \<noteq> [] \<longrightarrow>
        hd (recordAll (names @ [name]) []) = toLowerCase (trim name)
        \<and> toLowerCase (trim name) \<notin> set (map toLowerCase (tl (recordAll (names @ [name]) [])))
        \<and> tl (recordAll (names @ [name]) []) =
            take 9 (filter (\<lambda>item. toLowerCase item \<noteq> toLowerCase (trim name))
                      (recordAll names [])))"
proof -
  have inv: "length (recordAll names []) \<le> 10 \<and> distinct (map toLowerCase (recordAll names []))"
    by (rule recordAll_invariant) simp_all
  have front: "hd (recordAll (names @ [name]) []) = toLowerCase (trim name)
        \<and> toLowerCase (trim name) \<notin> set (map toLowerCase (tl (recordAll (names @ [name]) [])))
        \<and> tl (recordAll (names @ [name]) []) =
            take 9 (filter (\<lambda>item. toLowerCase item \<noteq> toLowerCase (trim name))
                      (recordAll names []))"
    if ne: "toLowerCase (trim name) \<noteq> []"
    using lower_notin_filtered [of "toLowerCase (trim name)" 9 "recordAll names []"]
    by (simp add: recordAll_snoc saveToHistory_front [OF ne] del: set_map)
  from inv front show ?thesis by blast
qed

theorem saveToHistory_bounded_distinct_front_witness:
  "toLowerCase (trim '' A.ETH '') \<noteq> []
   \<and> hd (recordAll ([''a.eth'', ''b.eth''] @ ['' A.ETH '']) []) = ''a.eth''
   \<and> tl (recordAll ([''a.eth'', ''b.eth''] @ ['' A.ETH '']) []) = [''b.eth'']"
proof -
  have n: "toLowerCase (trim '' A.ETH '') = ''a.eth''"
    by code_simp
  have ne: "toLowerCase (trim '' A.ETH '') \<noteq> []"
    by (simp add: n)
  have r: "take 9 (filter (\<lambda>item. toLowerCase item \<noteq> ''a.eth'')
             (recordAll [''a.eth'', ''b.eth''] [])) = [''b.eth'']"
    by code_simp
  from saveToHistory_bounded_distinct_front [of "[''a.eth'', ''b.eth'']" "'' A.ETH ''"] ne
  have "hd (recordAll ([''a.eth'', ''b.eth''] @ ['' A.ETH '']) []) = toLowerCase (trim '' A.ETH '')
      \<and> tl (recordAll ([''a.eth'', ''b.eth''] @ ['' A.ETH '']) []) =
          take 9 (filter (\<lambda>item. toLowerCase item \<noteq> toLowerCase (trim '' A.ETH ''))
                    (recordAll [''a.eth'', ''b.eth''] []))"
    by blast
  then show ?thesis
    unfolding n using r by simp
qed

section \<open>Error messages of a search\<close>

lemma RATE_ne_DEFAULT: "RATE_LIMIT_MESSAGE \<noteq> DEFAULT_MESSAGE"
  by (simp add: RATE_LIMIT_MESSAGE_def DEFAULT_MESSAGE_def)

lemma truthy_orElse: "truthy d \<Longrightarrow> truthy (orElse v d)"
  by (simp add: orElse_def split: option.splits)

lemma truthy_caughtMessage: "truthy (caughtMessage e)"
  by (simp add: caughtMessage_def DEFAULT_MESSAGE_def)

text \<open>
  C2, as stated, fails: on status 429 with body \<open>{"error":"slow down"}\<close> the search for
  \<open>ens\<close> ends in the error \<open>slow down\<close>, the server's string, which is not the rate-limit
  message.
\<close>

theorem rate_limit_body_counterexample:
  "performSearch_settle ''ens''
     (Inr \<lparr>status = 429, body = Inr (JObj [(''error'', JStr ''slow down'')])\<rparr>)
     (performSearch_begin ''ens'' home0)
   = Inr \<lparr> ensName = [], isSearching = False, error = JStr ''slow down'',
           searchResults = JNull, searchHistory = JArr [], showHistory = False,
           effects = [RouterPush ''/ens.eth'', Fetch ''ens.eth''] \<rparr>
   \<and> JStr ''slow down'' \<noteq> JStr RATE_LIMIT_MESSAGE"
  by code_simp

lemma view_error:
  "truthy (error st) \<Longrightarrow>
   view st = (if renderable (error st) then Inr (Error (error st)) else Inl childError)"
  by (simp add: view_def)

text \<open>
  C2, amended: on status 429 with a body that is a JSON object, the search ends with the
  error set to the object's \<open>error\<close> member when that is truthy (so to \<open>slow down\<close> for
  the body above), and to the rate-limit message, which differs from the default message,
  when the member is missing or falsy. The results area then shows Error with that value
  when React can render it as a child, as it can every string; when it cannot, as with a
  member that is an object, the render throws.
\<close>

theorem rate_limit_message:
  assumes "status r = 429" and "body r = Inr (JObj members)"
  shows "\<exists>st'. performSearch_settle name (Inr r) st = Inr st'
           \<and> error st' = (case map_of members ''error'' of
                            Some m \<Rightarrow> if truthy m then m else JStr RATE_LIMIT_MESSAGE
                          | None \<Rightarrow> JStr RATE_LIMIT_MESSAGE)
           \<and> view st' = (if renderable (error st') then Inr (Error (error st'))
                          else Inl childError)
           \<and> \<not> isSearching st'
           \<and> RATE_LIMIT_MESSAGE \<noteq> DEFAULT_MESSAGE"
proof -
  have nok: "\<not> ok r" using assms(1) by (simp add: ok_def)
  define m where "m = orElse (map_of members ''error'') (JStr RATE_LIMIT_MESSAGE)"
  define st' where "st' = st\<lparr>error := m, isSearching := False\<rparr>"
  have t: "try_block (Inr r) = SetError m"
    using assms nok by (simp add: try_block_def errorField_def m_def)
  have tr: "truthy m"
    unfolding m_def by (rule truthy_orElse) (simp add: RATE_LIMIT_MESSAGE_def)
  have s: "performSearch_settle name (Inr r) st = Inr st'"
    by (simp add: performSearch_settle_def t st'_def)
  have e: "error st' = m" and l: "\<not> isSearching st'"
    by (simp_all add: st'_def)
  have em: "error st' = (case map_of members ''error'' of
                   Some m \<Rightarrow> if truthy m then m else JStr RATE_LIMIT_MESSAGE
                 | None \<Rightarrow> JStr RATE_LIMIT_MESSAGE)"
    by (simp add: e m_def orElse_def)
  have v: "view st' = (if renderable (error st') then Inr (Error (error st')) else Inl childError)"
    using tr by (simp add: view_error e)
  show ?thesis
    using s em v l RATE_ne_DEFAULT by (intro exI [of _ st']) blast
qed

theorem rate_limit_message_witness:
  "status \<lparr>status = 429, body = Inr (JObj [(''error'', JStr ''slow down'')])\<rparr> = 429
   \<and> (\<exists>st'. performSearch_settle ''ens''
               (Inr \<lparr>status = 429, body = Inr (JObj [(''error'', JStr ''slow down'')])\<rparr>)
               (performSearch_begin ''ens'' home0) = Inr st'
             \<and> error st' = JStr ''slow down''
             \<and> view st' = Inr (Error (JStr ''slow down'')))"
  using rate_limit_message
    [of "\<lparr>status = 429, body = Inr (JObj [(''error'', JStr ''slow down'')])\<rparr>"
        "[(''error'', JStr ''slow down'')]" "''ens''" "performSearch_begin ''ens'' home0"]
  by auto

text \<open>
  With the body \<open>{"error":{"code":1}}\<close> the member is an object: it is stored as the
  error, and the render throws.
\<close>

lemma rate_limit_object_member:
  "map_sum id view
     (performSearch_settle ''ens''
        (Inr \<lparr>status = 429, body = Inr (JObj [(''error'', JObj [(''code'', JNum 1)])])\<rparr>)
        (performSearch_begin ''ens'' home0))
   = Inr (Inl childError)"
  by code_simp

text \<open>
  C3, as stated, fails: on status 500 with a body that does not parse, the search for
  \<open>ens\<close> ends in the error that carries the message of the parse exception, which is not
  the default message.
\<close>

theorem unparseable_body_counterexample:
  "performSearch_settle ''ens''
     (Inr \<lparr>status = 500, body = Inl (JsError ''Unexpected token < in JSON at position 0'')\<rparr>)
     (performSearch_begin ''ens'' home0)
   = Inr \<lparr> ensName = [], isSearching = False,
           error = JStr ''Unexpected token < in JSON at position 0'',
           searchResults = JNull, searchHistory = JArr [], showHistory = False,
           effects = [RouterPush ''/ens.eth'', Fetch ''ens.eth'',
                      ConsoleError ''Error fetching ENS history:''] \<rparr>
   \<and> JStr ''Unexpected token < in JSON at position 0'' \<noteq> JStr DEFAULT_MESSAGE"
  by code_simp

text \<open>
  C3, amended: on a non-success status with a body that does not parse, the search ends in
  Error with the message of the parse exception, and with the default message when that
  exception has no message.
\<close>

theorem unparseable_body_message:
  assumes "\<not> ok r" and "body r = Inl e"
  shows "\<exists>st'. performSearch_settle name (Inr r) st = Inr st'
           \<and> error st' = JStr (if message e \<noteq> [] then message e else DEFAULT_MESSAGE)
           \<and> view st' = Inr (Error (error st'))
           \<and> \<not> isSearching st'
           \<and> searchResults st' = searchResults st"
proof -
  have t: "try_block (Inr r) = Thrown e"
    using assms by (simp add: try_block_def)
  show ?thesis
    using truthy_caughtMessage [of e]
    by (simp add: performSearch_settle_def t view_def) (simp add: caughtMessage_def)
qed

theorem unparseable_body_message_witness:
  "\<not> ok \<lparr>status = 500, body = Inl (JsError [])\<rparr>
   \<and> (\<exists>st'. performSearch_settle ''ens'' (Inr \<lparr>status = 500, body = Inl (JsError [])\<rparr>)
               (performSearch_begin ''ens'' home0) = Inr st'
             \<and> error st' = JStr DEFAULT_MESSAGE)"
  using unparseable_body_message
    [of "\<lparr>status = 500, body = Inl (JsError [])\<rparr>" "JsError []" "''ens''"
        "performSearch_begin ''ens'' home0"]
  by (auto simp: ok_def)

section \<open>Restoring the history\<close>

text \<open>
  C9: when the stored content does not parse as JSON, the history after the mount effect is
  the empty list it started as, no error is set and the results area stays idle: the
  exception ends in the \<open>catch\<close>.
\<close>

theorem corrupt_history_ignored:
  assumes "parse s = Inl e"
  shows "searchHistory (loadHistory parse (Some s) home0) = JArr []
         \<and> error (loadHistory parse (Some s) home0) = JNull
         \<and> view (loadHistory parse (Some s) home0) = Inr Idle"
  using assms by (simp add: loadHistory_def home0_def view_def)

theorem corrupt_history_ignored_witness:
  "(\<lambda>s. if s = ''[]'' then Inr (JArr []) else Inl (JsError ''Unexpected token'')) ''{oops''
     = Inl (JsError ''Unexpected token'')
   \<and> searchHistory
       (loadHistory (\<lambda>s. if s = ''[]'' then Inr (JArr []) else Inl (JsError ''Unexpected token''))
          (Some ''{oops'') home0) = JArr []"
  using corrupt_history_ignored
    [of "\<lambda>s. if s = ''[]'' then Inr (JArr []) else Inl (JsError ''Unexpected token'')"
        "''{oops''" "JsError ''Unexpected token''"]
  by simp

text \<open>
  C10: a stored string that parses is installed as the history as it is, whatever the
  parsed value: nothing but the history field changes, and the field is the parsed value,
  be it an array of any length and content or no array at all.
\<close>

theorem parsed_history_installed:
  assumes "s \<noteq> []" and "parse s = Inr v"
  shows "loadHistory parse (Some s) st = st\<lparr>searchHistory := v\<rparr>"
  using assms by (simp add: loadHistory_def)

theorem parsed_history_installed_witness:
  "''7'' \<noteq> [] \<and> (\<lambda>s. if s = ''7'' then Inr (JNum 7) else Inl (JsError ''Unexpected token'')) ''7''
     = Inr (JNum 7)
   \<and> searchHistory
       (loadHistory (\<lambda>s. if s = ''7'' then Inr (JNum 7) else Inl (JsError ''Unexpected token''))
          (Some ''7'') home0) = JNum 7"
  using parsed_history_installed
    [of "''7''" "\<lambda>s. if s = ''7'' then Inr (JNum 7) else Inl (JsError ''Unexpected token'')"
        "JNum 7" home0]
  by simp

section \<open>The order of the effects of a search\<close>

lemma updateURL_path_searchName: "updateURL_path (searchName name) = ''/'' @ searchName name"
  by (simp add: updateURL_path_def searchName_trim searchName_lower searchName_not_Nil)

lemma effects_begin:
  "effects (performSearch_begin name st) =
     effects st @ [RouterPush (''/'' @ searchName name), Fetch (searchName name)]"
  by (simp add: performSearch_begin_def updateURL_def updateURL_path_searchName Let_def)

lemma searchHistory_begin: "searchHistory (performSearch_begin name st) = searchHistory st"
  by (simp add: performSearch_begin_def updateURL_def Let_def)

lemma settle_not_success:
  assumes "\<forall>data. try_block oc \<noteq> SetSearchResults data"
  shows "\<exists>st'. performSearch_settle name oc st = Inr st'
           \<and> searchHistory st' = searchHistory st
           \<and> filter (\<lambda>ef. \<exists>v. ef = StorageSet v) (effects st')
               = filter (\<lambda>ef. \<exists>v. ef = StorageSet v) (effects st)"
  using assms by (cases "try_block oc") (simp_all add: performSearch_settle_def)

lemma try_block_reject: "try_block (Inl e) = Thrown e"
  by (simp add: try_block_def)

lemma try_block_not_ok: "\<not> ok r \<Longrightarrow> try_block (Inr r) \<noteq> SetSearchResults data"
  by (simp add: try_block_def split: sum.splits)

lemma saveToHistory_state_strings:
  assumes "stringArray (searchHistory st) = Some h"
  shows "saveToHistory_state (searchName name) st =
           Inr (st\<lparr>searchHistory := JArr (map JStr (saveToHistory (searchName name) h)),
                   effects := effects st
                     @ [StorageSet (JArr (map JStr (saveToHistory (searchName name) h)))]\<rparr>)"
  using assms
  by (simp add: saveToHistory_state_def searchName_trim searchName_lower searchName_not_Nil Let_def)

text \<open>
  C7: the first part of a search pushes the URL of the normalized term and then issues the
  lookup, in this order, and leaves the history as it is. When the lookup is rejected
  (\<open>e\<close>) or answers with a non-success status (\<open>rf\<close>), the history is unchanged and nothing
  is written to storage. Only the completion of a success response (\<open>rs\<close>) updates the
  history and writes it, so within one search after the push and the lookup.
\<close>

theorem url_before_fetch_history_after_success:
  "effects (performSearch_begin name st) =
     effects st @ [RouterPush (''/'' @ searchName name), Fetch (searchName name)]
   \<and> searchHistory (performSearch_begin name st) = searchHistory st
   \<and> (\<exists>st'. performSearch_settle name (Inl e) st = Inr st'
         \<and> searchHistory st' = searchHistory st
         \<and> filter (\<lambda>ef. \<exists>v. ef = StorageSet v) (effects st')
             = filter (\<lambda>ef. \<exists>v. ef = StorageSet v) (effects st))
   \<and> (\<not> ok rf \<longrightarrow>
        (\<exists>st'. performSearch_settle name (Inr rf) st = Inr st'
           \<and> searchHistory st' = searchHistory st
           \<and> filter (\<lambda>ef. \<exists>v. ef = StorageSet v) (effects st')
               = filter (\<lambda>ef. \<exists>v. ef = StorageSet v) (effects st)))
   \<and> (ok rs \<and> body rs = Inr data \<and> stringArray (searchHistory st) = Some h \<longrightarrow>
        (\<exists>st'. performSearch_settle name (Inr rs) st = Inr st'
           \<and> searchHistory st' = JArr (map JStr (saveToHistory (searchName name) h))
           \<and> effects st' = effects st @ [StorageSet (searchHistory st')]))"
proof -
  have a: "\<exists>st'. performSearch_settle name (Inl e) st = Inr st'
         \<and> searchHistory st' = searchHistory st
         \<and> filter (\<lambda>ef. \<exists>v. ef = StorageSet v) (effects st')
             = filter (\<lambda>ef. \<exists>v. ef = StorageSet v) (effects st)"
    by (rule settle_not_success) (simp add: try_block_reject)
  have b: "\<exists>st'. performSearch_settle name (Inr rf) st = Inr st'
           \<and> searchHistory st' = searchHistory st
           \<and> filter (\<lambda>ef. \<exists>v. ef = StorageSet v) (effects st')
               = filter (\<lambda>ef. \<exists>v. ef = StorageSet v) (effects st)" if "\<not> ok rf"
    by (rule settle_not_success) (simp add: try_block_not_ok [OF that])
  have c: "\<exists>st'. performSearch_settle name (Inr rs) st = Inr st'
           \<and> searchHistory st' = JArr (map JStr (saveToHistory (searchName name) h))
           \<and> effects st' = effects st @ [StorageSet (searchHistory st')]"
    if "ok rs" "body rs = Inr data" "stringArray (searchHistory st) = Some h"
  proof -
    have t: "try_block (Inr rs) = SetSearchResults data"
      using that by (simp add: try_block_def)
    have s: "stringArray (searchHistory (st\<lparr>searchResults := data\<rparr>)) = Some h"
      using that by simp
    show ?thesis
      by (simp add: performSearch_settle_def t saveToHistory_state_strings [OF s])
  qed
  from a b c show ?thesis
    by (simp add: effects_begin searchHistory_begin)
qed

theorem url_before_fetch_history_after_success_witness:
  "\<not> ok \<lparr>status = 500, body = Inr (JObj [])\<rparr>
   \<and> ok \<lparr>status = 200, body = Inr (JObj [(''name'', JStr ''ens.eth'')])\<rparr>
   \<and> stringArray (searchHistory (performSearch_begin ''ens'' home0)) = Some []
   \<and> (\<exists>st'. performSearch_settle ''ens'' (Inr \<lparr>status = 500, body = Inr (JObj [])\<rparr>)
               (performSearch_begin ''ens'' home0) = Inr st'
         \<and> searchHistory st' = JArr [])
   \<and> (\<exists>st'. performSearch_settle ''ens''
               (Inr \<lparr>status = 200, body = Inr (JObj [(''name'', JStr ''ens.eth'')])\<rparr>)
               (performSearch_begin ''ens'' home0) = Inr st'
         \<and> searchHistory st' = JArr [JStr ''ens.eth''])"
proof -
  have h0: "searchHistory (performSearch_begin ''ens'' home0) = JArr []"
    by (simp add: searchHistory_begin home0_def)
  have sv: "saveToHistory (searchName ''ens'') [] = [''ens.eth'']"
    by code_simp
  show ?thesis
    using url_before_fetch_history_after_success
      [of "''ens''" "performSearch_begin ''ens'' home0" "JsError []"
          "\<lparr>status = 500, body = Inr (JObj [])\<rparr>"
          "\<lparr>status = 200, body = Inr (JObj [(''name'', JStr ''ens.eth'')])\<rparr>"
          "JObj [(''name'', JStr ''ens.eth'')]" "[]"]
    by (auto simp: ok_def h0 sv)
qed

section \<open>Overlapping searches\<close>

lemma stringArray_strings: "stringArray (JArr (map JStr xs)) = Some xs"
  by (induction xs) simp_all

lemma begin_fields:
  "isSearching (performSearch_begin name st) \<and> error (performSearch_begin name st) = JNull
   \<and> searchResults (performSearch_begin name st) = JNull"
  by (simp add: performSearch_begin_def updateURL_def Let_def)

text \<open>A completion is applied whatever the state: it sets its field and ends loading.\<close>

lemma settle_applies:
  assumes "stringArray (searchHistory st) = Some h"
  shows "\<exists>st' h'. performSearch_settle name oc st = Inr st'
           \<and> stringArray (searchHistory st') = Some h'
           \<and> reflects oc st' \<and> \<not> isSearching st'
           \<and> ((\<forall>data. try_block oc \<noteq> SetSearchResults data) \<longrightarrow>
                 searchResults st' = searchResults st)
           \<and> (\<forall>data. try_block oc = SetSearchResults data \<longrightarrow> error st' = error st)"
proof (cases "try_block oc")
  case (Thrown e)
  then show ?thesis
    using assms by (simp add: performSearch_settle_def reflects_def)
next
  case (SetError m)
  then show ?thesis
    using assms by (simp add: performSearch_settle_def reflects_def)
next
  case (SetSearchResults data)
  have s: "stringArray (searchHistory (st\<lparr>searchResults := data\<rparr>)) = Some h"
    using assms by simp
  show ?thesis
    by (simp add: performSearch_settle_def SetSearchResults reflects_def
        saveToHistory_state_strings [OF s] stringArray_strings del: stringArray.simps)
qed

lemma single_search:
  assumes "stringArray (searchHistory st) = Some h"
  shows "\<exists>st' h'. performSearch_settle name oc (performSearch_begin name st) = Inr st'
           \<and> stringArray (searchHistory st') = Some h'
           \<and> active st' \<le> 1 \<and> \<not> isSearching st'"
proof -
  let ?b = "performSearch_begin name st"
  have hb: "stringArray (searchHistory ?b) = Some h"
    using assms by (simp add: searchHistory_begin)
  from settle_applies [OF hb, of name oc] obtain st' h' where
    st': "performSearch_settle name oc ?b = Inr st'" "stringArray (searchHistory st') = Some h'"
      "\<not> isSearching st'"
      "(\<forall>data. try_block oc \<noteq> SetSearchResults data) \<longrightarrow> searchResults st' = searchResults ?b"
      "\<forall>data. try_block oc = SetSearchResults data \<longrightarrow> error st' = error ?b"
    by blast
  have "error st' = JNull \<or> searchResults st' = JNull"
    using st'(4,5) begin_fields [of name st] by (cases "try_block oc") auto
  then have "active st' \<le> 1"
    using st'(3) by (auto simp: active_def)
  with st' show ?thesis by blast
qed

lemma run_sequential:
  assumes "stringArray (searchHistory st) = Some h" and "active st \<le> 1" and "\<not> isSearching st"
  shows "\<exists>st' h'. run (sequential searches) st = Inr st'
           \<and> stringArray (searchHistory st') = Some h'
           \<and> active st' \<le> 1 \<and> \<not> isSearching st'"
  using assms
proof (induction searches arbitrary: st h)
  case Nil
  then show ?case by simp
next
  case (Cons p searches)
  obtain name oc where p: "p = (name, oc)" by (cases p)
  from single_search [OF Cons.prems(1), of name oc] obtain st1 h1 where
    st1: "performSearch_settle name oc (performSearch_begin name st) = Inr st1"
      "stringArray (searchHistory st1) = Some h1" "active st1 \<le> 1" "\<not> isSearching st1"
    by blast
  from Cons.IH [OF st1(2,3,4)] show ?case
    by (simp add: p st1(1))
qed

text \<open>
  C8, as stated, fails when searches overlap: the search for \<open>a\<close> begins, the search for
  \<open>b\<close> begins, the lookup for \<open>a\<close> fails and then the lookup for \<open>b\<close> succeeds. The
  success sets the result and leaves the error of \<open>a\<close> in place: an error and a result
  are present together.
\<close>

theorem overlap_both_set_counterexample:
  "run [Begin ''a'', Begin ''b'',
        Settle ''a'' (Inr \<lparr>status = 500, body = Inr (JObj [(''error'', JStr ''boom'')])\<rparr>),
        Settle ''b'' (Inr \<lparr>status = 200, body = Inr (JObj [(''name'', JStr ''b.eth'')])\<rparr>)]
       home0
   = Inr \<lparr> ensName = [], isSearching = False, error = JStr ''boom'',
           searchResults = JObj [(''name'', JStr ''b.eth'')],
           searchHistory = JArr [JStr ''b.eth''], showHistory = False,
           effects = [RouterPush ''/a.eth'', Fetch ''a.eth'', RouterPush ''/b.eth'',
                      Fetch ''b.eth'', StorageSet (JArr [JStr ''b.eth''])] \<rparr>
   \<and> active \<lparr> ensName = [], isSearching = False, error = JStr ''boom'',
           searchResults = JObj [(''name'', JStr ''b.eth'')],
           searchHistory = JArr [JStr ''b.eth''], showHistory = False,
           effects = [RouterPush ''/a.eth'', Fetch ''a.eth'', RouterPush ''/b.eth'',
                      Fetch ''b.eth'', StorageSet (JArr [JStr ''b.eth''])] \<rparr> = 2"
  by code_simp

text \<open>
  C8, amended: entering Loading clears both the previous result and the previous error, in
  any state, and leaves the loading flag as the only one set. When searches run one after
  the other from the initial state (each lookup settles before the next search begins),
  after every search at most one of loading flag, error and result is set, none being
  Idle: loading is off, and an error and a result are never present together.
\<close>

theorem one_variant_sequential:
  "isSearching (performSearch_begin name st)
   \<and> error (performSearch_begin name st) = JNull
   \<and> searchResults (performSearch_begin name st) = JNull
   \<and> active (performSearch_begin name st) = 1
   \<and> (\<exists>st'. run (sequential searches) home0 = Inr st'
         \<and> active st' \<le> 1 \<and> \<not> isSearching st'
         \<and> (error st' = JNull \<or> searchResults st' = JNull))"
proof -
  have "stringArray (searchHistory home0) = Some []" "active home0 \<le> 1" "\<not> isSearching home0"
    by (simp_all add: home0_def active_def)
  from run_sequential [OF this, of searches] obtain st' where
    st': "run (sequential searches) home0 = Inr st'" "active st' \<le> 1" "\<not> isSearching st'"
    by blast
  have "error st' = JNull \<or> searchResults st' = JNull"
    using st'(2) by (auto simp: active_def split: if_splits)
  with st' show ?thesis
    using begin_fields [of name st] by (auto simp: active_def)
qed

theorem one_variant_sequential_witness:
  "\<exists>st'. run (sequential
             [(''a'', Inr \<lparr>status = 500, body = Inr (JObj [(''error'', JStr ''boom'')])\<rparr>),
              (''b'', Inr \<lparr>status = 200, body = Inr (JObj [(''name'', JStr ''b.eth'')])\<rparr>)])
           home0 = Inr st'
         \<and> active st' \<le> 1 \<and> \<not> isSearching st'"
  using one_variant_sequential
    [of "''a''" home0
        "[(''a'', Inr \<lparr>status = 500, body = Inr (JObj [(''error'', JStr ''boom'')])\<rparr>),
          (''b'', Inr \<lparr>status = 200, body = Inr (JObj [(''name'', JStr ''b.eth'')])\<rparr>)]"]
  by blast




section \<open>Initialization from the route\<close>

lemma unreserved_not_ws: "unreserved c \<Longrightarrow> \<not> isWhiteSpace c"
  by (auto simp: unreserved_def isWhiteSpace_def Let_def)

lemma unreserved_lowerChar: "unreserved c \<Longrightarrow> unreserved (lowerChar c)"
  by (auto simp: unreserved_def lowerChar_def Let_def)

lemma unreserved_not_special: "unreserved c \<Longrightarrow> c \<noteq> CHR ''%'' \<and> c \<noteq> CHR ''/''"
  by (auto simp: unreserved_def Let_def)

lemma unreserved_eth: "\<forall>c\<in>set ''.eth''. unreserved c"
  by (simp add: unreserved_def)

lemma unreserved_trim:
  assumes "\<forall>c\<in>set t. unreserved c"
  shows "trim t = t"
proof (cases "t = []")
  case True
  then show ?thesis by (simp add: trim_fixed_iff)
next
  case False
  then have "hd t \<in> set t" "last t \<in> set t" by simp_all
  with assms have "\<not> isWhiteSpace (hd t)" "\<not> isWhiteSpace (last t)"
    by (auto dest: unreserved_not_ws)
  then show ?thesis by (simp add: trim_fixed_iff)
qed

lemma unreserved_searchName:
  assumes "\<forall>c\<in>set t. unreserved c"
  shows "\<forall>c\<in>set (searchName t). unreserved c"
proof -
  have "\<forall>c\<in>set (toLowerCase t). unreserved c"
    using assms by (auto simp: toLowerCase_def unreserved_lowerChar)
  then show ?thesis
    using unreserved_eth by (auto simp: searchName_def Let_def unreserved_trim [OF assms])
qed

lemma page_for_segment:
  assumes "t \<noteq> []" and "CHR ''/'' \<notin> set t" and "decodeURIComponent escapes t = Some d"
  shows "page_for escapes (CHR ''/'' # t) = Some \<lparr>pathname = CHR ''/'' # t, initialDomain = Some d\<rparr>"
  using assms by (simp add: page_for_def DomainPage_def)

lemma page_for_unreserved:
  assumes "t \<noteq> []" and "\<forall>c\<in>set t. unreserved c"
  shows "page_for escapes (CHR ''/'' # t) = Some \<lparr>pathname = CHR ''/'' # t, initialDomain = Some t\<rparr>"
proof -
  have "CHR ''/'' \<notin> set t" "CHR ''%'' \<notin> set t"
    using assms(2) unreserved_not_special by blast+
  then show ?thesis
    using assms(1) by (simp add: page_for_segment decodeURIComponent_def)
qed

lemma routeEffect_initialDomain:
  "d \<noteq> [] \<Longrightarrow> routeEffect \<lparr>pathname = p, initialDomain = Some d\<rparr> = Some d"
  by (simp add: routeEffect_def)

lemma pageLoad_step:
  assumes "routeEffect r = Some term"
    and "page_for escapes (updateURL_path (searchName term)) = Some r'"
  shows "pageLoad (Suc n) escapes r =
           term # (if depsChanged r r' then pageLoad n escapes r' else [])"
  using assms by simp

lemma pageLoad_once:
  assumes "routeEffect r = Some term"
  shows "pageLoad (Suc 0) escapes r = [term]"
  using assms by (simp split: option.splits)

lemma pageLoad_normalized:
  assumes "n \<noteq> []" and "\<forall>c\<in>set n. unreserved c" and "searchName n = n"
  shows "pageLoad (Suc k) escapes \<lparr>pathname = CHR ''/'' # n, initialDomain = Some n\<rparr> = [n]"
proof -
  let ?r = "\<lparr>pathname = CHR ''/'' # n, initialDomain = Some n\<rparr>"
  have e: "routeEffect ?r = Some n"
    by (rule routeEffect_initialDomain [OF assms(1)])
  have "updateURL_path (searchName n) = CHR ''/'' # n"
    using updateURL_path_searchName [of n] assms(3) by simp
  then have p: "page_for escapes (updateURL_path (searchName n)) = Some ?r"
    by (simp only: page_for_unreserved [OF assms(1,2)])
  have "\<not> depsChanged ?r ?r"
    by (simp add: depsChanged_def)
  then show ?thesis
    by (simp only: pageLoad_step [OF e p] if_False)
qed

lemma pageLoad_unreserved:
  assumes "t \<noteq> []" and "\<forall>c\<in>set t. unreserved c"
  shows "pageLoad (Suc (Suc k)) escapes \<lparr>pathname = CHR ''/'' # t, initialDomain = Some t\<rparr> =
           (if searchName t = t then [t] else [t, searchName t])"
proof (cases "searchName t = t")
  case True
  then show ?thesis
    using pageLoad_normalized [OF assms True, of "Suc k" escapes] by simp
next
  case False
  let ?n = "searchName t"
  let ?r = "\<lparr>pathname = CHR ''/'' # t, initialDomain = Some t\<rparr>"
  let ?r' = "\<lparr>pathname = CHR ''/'' # ?n, initialDomain = Some ?n\<rparr>"
  have un: "\<forall>c\<in>set ?n. unreserved c"
    by (rule unreserved_searchName [OF assms(2)])
  have e: "routeEffect ?r = Some t"
    by (rule routeEffect_initialDomain [OF assms(1)])
  have "updateURL_path ?n = CHR ''/'' # ?n"
    using updateURL_path_searchName [of t] by simp
  then have pn: "page_for escapes (updateURL_path ?n) = Some ?r'"
    by (simp only: page_for_unreserved [OF searchName_not_Nil un])
  have rest: "pageLoad (Suc k) escapes ?r' = [?n]"
    by (rule pageLoad_normalized [OF searchName_not_Nil un searchName_fixed])
  have ch: "depsChanged ?r ?r'"
    using False by (simp add: depsChanged_def)
  show ?thesis
    using False by (simp only: pageLoad_step [OF e pn] ch rest if_True if_False)
qed

text \<open>
  C4, as stated, fails: on the page load of \<open>/ens\<close> the route effect searches for \<open>ens\<close>;
  the search pushes \<open>/ens.eth\<close>; the path and the prop change, the effect runs again and
  searches for \<open>ens.eth\<close>. The URL update of the search has triggered the initialization
  again, and the page load has searched twice.
\<close>

theorem route_search_twice_counterexample:
  "page_for noEscapes ''/ens'' = Some \<lparr>pathname = ''/ens'', initialDomain = Some ''ens''\<rparr>
   \<and> pageLoad 3 noEscapes \<lparr>pathname = ''/ens'', initialDomain = Some ''ens''\<rparr>
       = [''ens'', ''ens.eth'']"
  by code_simp

text \<open>
  C4, amended: on the page load of a one-segment route, the first run of the route effect
  invokes the search once, with the percent-decoded segment. The URL update of that search
  triggers the effect again exactly when it changes the path. For a term \<open>t\<close> of unreserved
  characters: when \<open>t\<close> is already normalized the page load searches exactly once; when it
  is not, the effect runs a second time and searches for the normalized term, whose push
  changes nothing, so the page load searches exactly twice, whatever the bound on the runs.
\<close>

theorem route_initialization:
  "(seg \<noteq> [] \<and> CHR ''/'' \<notin> set seg \<and> decodeURIComponent escapes seg = Some d \<and> d \<noteq> [] \<longrightarrow>
      page_for escapes (''/'' @ seg) = Some \<lparr>pathname = ''/'' @ seg, initialDomain = Some d\<rparr>
      \<and> pageLoad 1 escapes \<lparr>pathname = ''/'' @ seg, initialDomain = Some d\<rparr> = [d])
   \<and> (t \<noteq> [] \<and> (\<forall>c\<in>set t. unreserved c) \<longrightarrow>
      page_for escapes (''/'' @ t) = Some \<lparr>pathname = ''/'' @ t, initialDomain = Some t\<rparr>
      \<and> pageLoad (Suc (Suc k)) escapes \<lparr>pathname = ''/'' @ t, initialDomain = Some t\<rparr> =
          (if searchName t = t then [t] else [t, searchName t]))"
proof (intro conjI impI)
  assume a: "seg \<noteq> [] \<and> CHR ''/'' \<notin> set seg \<and> decodeURIComponent escapes seg = Some d \<and> d \<noteq> []"
  then show "page_for escapes (''/'' @ seg)
      = Some \<lparr>pathname = ''/'' @ seg, initialDomain = Some d\<rparr>"
    using page_for_segment [of seg escapes d] by simp
  from a have "routeEffect \<lparr>pathname = ''/'' @ seg, initialDomain = Some d\<rparr> = Some d"
    by (simp add: routeEffect_initialDomain)
  then show "pageLoad 1 escapes \<lparr>pathname = ''/'' @ seg, initialDomain = Some d\<rparr> = [d]"
    unfolding One_nat_def by (rule pageLoad_once)
next
  assume b: "t \<noteq> [] \<and> (\<forall>c\<in>set t. unreserved c)"
  then show "page_for escapes (''/'' @ t)
      = Some \<lparr>pathname = ''/'' @ t, initialDomain = Some t\<rparr>"
    using page_for_unreserved [of t escapes] by simp
  from b show "pageLoad (Suc (Suc k)) escapes \<lparr>pathname = ''/'' @ t, initialDomain = Some t\<rparr> =
          (if searchName t = t then [t] else [t, searchName t])"
    using pageLoad_unreserved [of t k escapes] by (simp del: pageLoad.simps)
qed

theorem route_initialization_witness:
  "''ens%2Eeth'' \<noteq> [] \<and> CHR ''/'' \<notin> set ''ens%2Eeth''
   \<and> decodeURIComponent (\<lambda>s. if s = ''ens%2Eeth'' then Some ''ens.eth'' else None) ''ens%2Eeth''
       = Some ''ens.eth''
   \<and> ''ens'' \<noteq> [] \<and> list_all unreserved ''ens''
   \<and> pageLoad 1 (\<lambda>s. if s = ''ens%2Eeth'' then Some ''ens.eth'' else None)
       \<lparr>pathname = ''/'' @ ''ens%2Eeth'', initialDomain = Some ''ens.eth''\<rparr> = [''ens.eth'']
   \<and> pageLoad (Suc (Suc 0)) (\<lambda>s. if s = ''ens%2Eeth'' then Some ''ens.eth'' else None)
       \<lparr>pathname = ''/'' @ ''ens'', initialDomain = Some ''ens''\<rparr> = [''ens'', ''ens.eth'']"
proof -
  let ?esc = "\<lambda>s. if s = ''ens%2Eeth'' then Some ''ens.eth'' else None"
  have h1: "''ens%2Eeth'' \<noteq> [] \<and> CHR ''/'' \<notin> set ''ens%2Eeth''
      \<and> decodeURIComponent ?esc ''ens%2Eeth'' = Some ''ens.eth'' \<and> ''ens.eth'' \<noteq> []"
    by (simp add: decodeURIComponent_def)
  have h2: "''ens'' \<noteq> [] \<and> (\<forall>c\<in>set ''ens''. unreserved c)"
    by (simp add: unreserved_def)
  have sn: "searchName ''ens'' = ''ens.eth''"
    by code_simp
  from route_initialization [of "''ens%2Eeth''" ?esc "''ens.eth''" "''ens''" 0] h1 h2
  have "pageLoad 1 ?esc \<lparr>pathname = ''/'' @ ''ens%2Eeth'', initialDomain = Some ''ens.eth''\<rparr>
          = [''ens.eth'']"
    and "pageLoad (Suc (Suc 0)) ?esc \<lparr>pathname = ''/'' @ ''ens'', initialDomain = Some ''ens''\<rparr>
          = (if searchName ''ens'' = ''ens'' then [''ens''] else [''ens'', searchName ''ens''])"
    by blast+
  then show ?thesis
    using h1 h2 by (simp only: sn list_all_iff) simp
qed

end
